theory Spec2Isabelle
  imports Complex_Main
begin

section \<open>Embedding of \<open>keymap_optimizer.py\<close>\<close>

text \<open>
  The function \<open>optimize_keymap(penalty2, letters, input_text)\<close> builds a boolean
  program for the CP-SAT engine, hands it over, and decodes the answer.  A Python
  \<open>str\<close> is a sequence of code points; the type of code points is left open as
  \<open>'a\<close>, a letter is one code point (every entry of \<open>letters_\<close> is a string of
  length one) and a text is an \<open>'a list\<close>.  The penalty matrix is a list of rows
  of Python numbers: the docstring declares integers, the script passes floats.
\<close>

subsection \<open>Python helpers\<close>

datatype error = IndexError | OverflowError

text \<open>\<open>xs[i]\<close> for a non-negative index: out of range raises.\<close>

definition nth_py :: "'b list \<Rightarrow> nat \<Rightarrow> error + 'b" where
  "nth_py xs i = (if i < length xs then Inr (xs ! i) else Inl IndexError)"

text \<open>
  A number of the matrix is a Python \<open>int\<close> (unbounded) or a Python \<open>float\<close>: a
  binary64 value.  A penalty is a finite number, and a finite float is given by the
  rational number it denotes.
\<close>

datatype pynum = PyInt int | PyFloat rat

fun num_value :: "pynum \<Rightarrow> rat" where
  "num_value (PyInt i) = of_int i"
| "num_value (PyFloat x) = x"

text \<open>\<open>penalty2[k1][k2]\<close>: the row is read first, then the column.\<close>

definition penalty_at :: "pynum list list \<Rightarrow> nat \<Rightarrow> nat \<Rightarrow> error + pynum" where
  "penalty_at penalty2 k1 k2 =
     (case nth_py penalty2 k1 of Inl e \<Rightarrow> Inl e | Inr row \<Rightarrow> nth_py row k2)"

text \<open>
  Binary64 arithmetic.  \<open>bit_length\<close> is \<open>int.bit_length\<close> of a positive int; \<open>ilog2 a\<close> is the
  exponent \<open>e\<close> with \<open>2^e \<le> a < 2^(e+1)\<close> for a positive \<open>a\<close>.
  \<open>double_round x\<close> is the binary64 value nearest to \<open>x\<close>, ties to the even
  significand: 53 significant bits, and below \<open>2^-1022\<close> the fixed spacing
  \<open>2^-1074\<close> of the subnormal numbers.  It does not bound the exponent from above: a
  result of magnitude \<open>2^1024\<close> or more is out of range (\<open>double_finite\<close> fails),
  and each operation says what it does then.
\<close>

function bit_length :: "int \<Rightarrow> nat" where
  "bit_length n = (if n \<le> 0 then 0 else Suc (bit_length (n div 2)))"
  by pat_completeness auto
termination
  by (relation "measure nat") auto

declare bit_length.simps [simp del]

definition pow2 :: "int \<Rightarrow> rat" where
  "pow2 e = (if 0 \<le> e then 2 ^ nat e else 1 / 2 ^ nat (- e))"

definition ilog2 :: "rat \<Rightarrow> int" where
  "ilog2 a = (if 1 \<le> a then int (bit_length \<lfloor>a\<rfloor>) - 1
              else - int (bit_length (\<lceil>1 / a\<rceil> - 1)))"

definition round_half_even :: "rat \<Rightarrow> int" where
  "round_half_even y =
     (let f = \<lfloor>y\<rfloor>; d = y - of_int f
      in if d < 1 / 2 then f else if 1 / 2 < d then f + 1 else if even f then f else f + 1)"

definition double_round :: "rat \<Rightarrow> rat" where
  "double_round x =
     (if x = 0 then 0
      else let a = \<bar>x\<bar>;
               q = max (ilog2 a - 52) (- 1074);
               r = of_int (round_half_even (a / pow2 q)) * pow2 q
           in if x < 0 then - r else r)"

definition double_finite :: "rat \<Rightarrow> bool" where
  "double_finite r = (r = 0 \<or> ilog2 \<bar>r\<bar> < 1024)"

text \<open>
  \<open>float(n)\<close> for an int, as \<open>int * float\<close> converts its left operand: correctly
  rounded, and \<open>OverflowError\<close> (int too large to convert to float) out of range.
\<close>

definition int_to_double :: "int \<Rightarrow> error + rat" where
  "int_to_double n =
     (let r = double_round (of_int n)
      in if double_finite r then Inr r else Inl OverflowError)"

text \<open>
  The product \<open>freq * penalty2[k1][k2]\<close> of line 60, \<open>freq\<close> being the int that
  \<open>count\<close> returned.  With an int entry it is the exact product, an int.  With a float
  entry \<open>freq\<close> is converted and the two floats are multiplied: the rounded product,
  or an infinity (\<open>Infinity True\<close> the negative one) when that is out of range; no
  exception is raised by the multiplication itself.
\<close>

datatype coef = Num pynum | Infinity bool

fun py_mul :: "nat \<Rightarrow> pynum \<Rightarrow> error + coef" where
  "py_mul f (PyInt i) = Inr (Num (PyInt (int f * i)))"
| "py_mul f (PyFloat x) =
     (case int_to_double (int f) of
        Inl e \<Rightarrow> Inl e
      | Inr d \<Rightarrow>
          (let r = double_round (d * x)
           in if double_finite r then Inr (Num (PyFloat r)) else Inr (Infinity (r < 0))))"

text \<open>
  \<open>text.count(sub)\<close>: the number of non-overlapping occurrences of \<open>sub\<close>, scanning
  from the left; after a match the scan resumes behind the match.  The empty pattern is
  found between all characters and at both ends.
\<close>

fun count_str :: "'a list \<Rightarrow> 'a list \<Rightarrow> nat" where
  "count_str text [] = length text + 1"
| "count_str [] (p # ps) = 0"
| "count_str (c # cs) (p # ps) =
     (if take (length (p # ps)) (c # cs) = p # ps
      then 1 + count_str (drop (length ps) cs) (p # ps)
      else count_str cs (p # ps))"

text \<open>\<open>input_text.count(l1 + l2)\<close> of line 56, for two letters.\<close>

definition freq_of :: "'a list \<Rightarrow> 'a \<Rightarrow> 'a \<Rightarrow> nat" where
  "freq_of input_text l1 l2 = count_str input_text [l1, l2]"

text \<open>
  \<open>itertools.permutations(xs, 2)\<close>: the pairs of entries at two different indices, in
  lexicographic order of the indices.  \<open>itertools.combinations(xs, 2)\<close>: the pairs of
  entries at indices \<open>i < j\<close>, in the same order.  Both go by position, not by value.
\<close>

definition permutations2 :: "'b list \<Rightarrow> ('b \<times> 'b) list" where
  "permutations2 xs =
     concat (map (\<lambda>i. map (\<lambda>j. (xs ! i, xs ! j)) (filter (\<lambda>j. j \<noteq> i) [0..<length xs]))
                 [0..<length xs])"

definition combinations2 :: "'b list \<Rightarrow> ('b \<times> 'b) list" where
  "combinations2 xs =
     concat (map (\<lambda>i. map (\<lambda>j. (xs ! i, xs ! j)) [Suc i..<length xs]) [0..<length xs])"

text \<open>\<open>range(len(letters))\<close>, also the keys of \<open>enumerate(letters)\<close>.\<close>

definition positions :: "'a list \<Rightarrow> nat list" where
  "positions letters = [0..<length letters]"

subsection \<open>The boolean program\<close>

text \<open>
  The dictionary \<open>variables\<close> is keyed by \<open>(letter, key)\<close> and by
  \<open>(l1, l2, k1, k2)\<close>.  All entries are made (lines 28--36) before the first
  constraint reads one, and a key stored twice keeps the later variable only, so a
  variable of the program is identified with its key.
\<close>

datatype 'a var = AssignV 'a nat | LinkV 'a 'a nat nat

text \<open>A literal is a variable or its \<open>.Not()\<close>.\<close>

datatype 'a lit = Pos "'a var" | Neg "'a var"

text \<open>
  The constraints the function emits: \<open>Add(Sum(xs) == c)\<close>, \<open>Add(Sum(xs) <= c)\<close>,
  \<open>AddBoolAnd(ls).OnlyEnforceIf(e)\<close> and \<open>AddBoolOr(ls).OnlyEnforceIf(e)\<close>.
\<close>

datatype 'a constr =
    SumEq "'a var list" int
  | SumLe "'a var list" int
  | BoolAnd "'a lit list" "'a lit"
  | BoolOr "'a lit list" "'a lit"

text \<open>
  The model: the keys of the variables made, the constraints added, and the objective
  \<open>WeightedSum(expr, coef)\<close> as the list of the pairs \<open>(expr[i], coef[i])\<close> (the two
  lists are appended to in lockstep).
\<close>

record 'a model =
  variables :: "'a var list"
  constraints :: "'a constr list"
  objective :: "('a var \<times> coef) list"

text \<open>Lines 28--36.\<close>

definition make_variables :: "'a list \<Rightarrow> 'a var list" where
  "make_variables letters =
     concat (map (\<lambda>letter. map (\<lambda>key. AssignV letter key) (positions letters)) letters)
     @ concat (map (\<lambda>(l1, l2). map (\<lambda>(k1, k2). LinkV l1 l2 k1 k2)
                                   (combinations2 (positions letters)))
                   (permutations2 letters))"

text \<open>Lines 39--40: each letter on exactly one key.\<close>

definition constraints1 :: "'a list \<Rightarrow> 'a constr list" where
  "constraints1 letters =
     map (\<lambda>letter. SumEq (map (\<lambda>key. AssignV letter key) (positions letters)) 1) letters"

text \<open>Lines 43--44: each key holds at most one letter.\<close>

definition constraints2 :: "'a list \<Rightarrow> 'a constr list" where
  "constraints2 letters =
     map (\<lambda>key. SumLe (map (\<lambda>letter. AssignV letter key) letters) 1) (positions letters)"

text \<open>Lines 47--50: the two enforced clauses for every link variable.\<close>

definition link_constraints :: "'a \<Rightarrow> 'a \<Rightarrow> nat \<Rightarrow> nat \<Rightarrow> 'a constr list" where
  "link_constraints l1 l2 k1 k2 =
     [BoolAnd [Pos (AssignV l1 k1), Pos (AssignV l2 k2)] (Pos (LinkV l1 l2 k1 k2)),
      BoolOr [Neg (AssignV l1 k1), Neg (AssignV l2 k2)] (Neg (LinkV l1 l2 k1 k2))]"

definition constraints3 :: "'a list \<Rightarrow> 'a constr list" where
  "constraints3 letters =
     concat (map (\<lambda>(l1, l2). concat (map (\<lambda>(k1, k2). link_constraints l1 l2 k1 k2)
                                           (combinations2 (positions letters))))
                 (permutations2 letters))"

text \<open>
  Lines 53--60: one term per link variable, with coefficient
  \<open>freq * penalty2[k1][k2]\<close>.  The frequency is computed per letter pair; it is a
  parameter here and \<open>freq_of input_text\<close> in the program.  The first read outside
  the matrix, or the first conversion out of range, ends the function with the exception.
\<close>

fun sequence_err :: "(error + 'b) list \<Rightarrow> error + 'b list" where
  "sequence_err [] = Inr []"
| "sequence_err (x # xs) =
     (case x of Inl e \<Rightarrow> Inl e
      | Inr y \<Rightarrow> (case sequence_err xs of Inl e \<Rightarrow> Inl e | Inr ys \<Rightarrow> Inr (y # ys)))"

definition objective_term ::
  "('a \<Rightarrow> 'a \<Rightarrow> nat) \<Rightarrow> pynum list list \<Rightarrow> 'a \<Rightarrow> 'a \<Rightarrow> nat \<Rightarrow> nat \<Rightarrow> error + ('a var \<times> coef)" where
  "objective_term freq penalty2 l1 l2 k1 k2 =
     (case penalty_at penalty2 k1 k2 of
        Inl e \<Rightarrow> Inl e
      | Inr p \<Rightarrow>
          (case py_mul (freq l1 l2) p of
             Inl e \<Rightarrow> Inl e
           | Inr c \<Rightarrow> Inr (LinkV l1 l2 k1 k2, c)))"

definition objective_terms ::
  "('a \<Rightarrow> 'a \<Rightarrow> nat) \<Rightarrow> pynum list list \<Rightarrow> 'a list \<Rightarrow> error + ('a var \<times> coef) list" where
  "objective_terms freq penalty2 letters =
     sequence_err
       (concat (map (\<lambda>(l1, l2). map (\<lambda>(k1, k2). objective_term freq penalty2 l1 l2 k1 k2)
                                     (combinations2 (positions letters)))
                    (permutations2 letters)))"

definition build_model ::
  "('a \<Rightarrow> 'a \<Rightarrow> nat) \<Rightarrow> pynum list list \<Rightarrow> 'a list \<Rightarrow> error + 'a model" where
  "build_model freq penalty2 letters =
     (case objective_terms freq penalty2 letters of
        Inl e \<Rightarrow> Inl e
      | Inr terms \<Rightarrow>
          Inr \<lparr> variables = make_variables letters,
                constraints = constraints1 letters @ constraints2 letters @ constraints3 letters,
                objective = terms \<rparr>)"

subsection \<open>The engine's side\<close>

text \<open>
  What the CP-SAT engine means by the model: a valuation of the variables satisfies a
  constraint, is feasible, and has an objective value.  The engine answers with a status
  and, for \<open>OPTIMAL\<close> and \<open>FEASIBLE\<close>, the valuation \<open>solver.Value\<close> reads;
  \<open>solver.ObjectiveValue()\<close> is the objective at that valuation.  The objective is
  the sum of the coefficients of the true variables, each coefficient read as the number
  it denotes; a model with an infinite coefficient has no objective value and no optimum.
\<close>

datatype status = UNKNOWN | MODEL_INVALID | FEASIBLE | INFEASIBLE | OPTIMAL

fun lit_val :: "('a var \<Rightarrow> bool) \<Rightarrow> 'a lit \<Rightarrow> bool" where
  "lit_val v (Pos x) = v x"
| "lit_val v (Neg x) = (\<not> v x)"

definition bool_sum :: "('a var \<Rightarrow> bool) \<Rightarrow> 'a var list \<Rightarrow> int" where
  "bool_sum v xs = sum_list (map (\<lambda>x. if v x then 1 else 0) xs)"

fun sat :: "('a var \<Rightarrow> bool) \<Rightarrow> 'a constr \<Rightarrow> bool" where
  "sat v (SumEq xs c) = (bool_sum v xs = c)"
| "sat v (SumLe xs c) = (bool_sum v xs \<le> c)"
| "sat v (BoolAnd ls e) = (lit_val v e \<longrightarrow> list_all (lit_val v) ls)"
| "sat v (BoolOr ls e) = (lit_val v e \<longrightarrow> list_ex (lit_val v) ls)"

definition feasible :: "'a model \<Rightarrow> ('a var \<Rightarrow> bool) \<Rightarrow> bool" where
  "feasible m v = list_all (sat v) (constraints m)"

fun coef_value :: "coef \<Rightarrow> rat option" where
  "coef_value (Num n) = Some (num_value n)"
| "coef_value (Infinity s) = None"

definition finite_objective :: "'a model \<Rightarrow> bool" where
  "finite_objective m = list_all (\<lambda>(x, c). coef_value c \<noteq> None) (objective m)"

definition weighted_sum :: "('a var \<times> coef) list \<Rightarrow> ('a var \<Rightarrow> bool) \<Rightarrow> rat" where
  "weighted_sum terms v =
     sum_list (map (\<lambda>(x, c). (case coef_value c of Some r \<Rightarrow> r | None \<Rightarrow> 0)
                                 * (if v x then 1 else 0)) terms)"

definition objective_value :: "'a model \<Rightarrow> ('a var \<Rightarrow> bool) \<Rightarrow> rat option" where
  "objective_value m v =
     (if finite_objective m then Some (weighted_sum (objective m) v) else None)"

definition optimal :: "'a model \<Rightarrow> ('a var \<Rightarrow> bool) \<Rightarrow> bool" where
  "optimal m v =
     (feasible m v \<and> finite_objective m
      \<and> (\<forall>w. feasible m w \<longrightarrow> weighted_sum (objective m) v \<le> weighted_sum (objective m) w))"

subsection \<open>Decoding and the whole function\<close>

text \<open>
  Lines 72--77: \<open>result = [None] * len(letters)\<close>, then for every letter and every
  key the slot is overwritten when the letter's variable for the key is true.
\<close>

definition decode_letter :: "('a var \<Rightarrow> bool) \<Rightarrow> nat list \<Rightarrow> 'a \<Rightarrow> 'a option list \<Rightarrow> 'a option list" where
  "decode_letter v keys letter result =
     fold (\<lambda>key r. if v (AssignV letter key) then r[key := Some letter] else r) keys result"

definition decode :: "('a var \<Rightarrow> bool) \<Rightarrow> 'a list \<Rightarrow> 'a option list" where
  "decode v letters =
     fold (decode_letter v (positions letters)) letters (replicate (length letters) None)"

text \<open>
  The engine is a parameter: a function from the model to its status and valuation.
  The result is \<open>Inl\<close> for an exception, \<open>Inr None\<close> for Python's \<open>None\<close> and
  \<open>Inr (Some result)\<close> for the list.
\<close>

definition optimize_keymap ::
  "('a model \<Rightarrow> status \<times> ('a var \<Rightarrow> bool)) \<Rightarrow> pynum list list \<Rightarrow> 'a list \<Rightarrow> 'a list
     \<Rightarrow> error + 'a option list option" where
  "optimize_keymap solve penalty2 letters input_text =
     (case build_model (freq_of input_text) penalty2 letters of
        Inl e \<Rightarrow> Inl e
      | Inr m \<Rightarrow>
          (case solve m of (status, v) \<Rightarrow>
             if status = OPTIMAL \<or> status = FEASIBLE
             then Inr (Some (decode v letters))
             else Inr None))"

subsection \<open>Notions of the specification\<close>

text \<open>
  The number of places where \<open>s1\<close> is immediately followed by \<open>s2\<close>, every place
  counted on its own.
\<close>

definition occurrences2 :: "'a list \<Rightarrow> 'a \<Rightarrow> 'a \<Rightarrow> nat" where
  "occurrences2 text s1 s2 =
     length (filter (\<lambda>i. text ! i = s1 \<and> text ! Suc i = s2) [0..<length text - 1])"

text \<open>The valuation that encodes a placement \<open>pos\<close> of the letters on the keys.\<close>

fun valuation_of :: "('a \<Rightarrow> nat) \<Rightarrow> 'a var \<Rightarrow> bool" where
  "valuation_of pos (AssignV l k) = (pos l = k)"
| "valuation_of pos (LinkV l1 l2 k1 k2) = (pos l1 = k1 \<and> pos l2 = k2)"

text \<open>
  The position of a symbol in a decoded solution (the first slot that holds it), and the
  cost of typing the corpus on that solution: every ordered pair of letters, weighted with
  the penalty of going from the key of the first to the key of the second.
\<close>

definition position_in :: "'a option list \<Rightarrow> 'a \<Rightarrow> nat" where
  "position_in result s = length (takeWhile (\<lambda>x. x \<noteq> Some s) result)"

definition typing_cost :: "('a \<Rightarrow> 'a \<Rightarrow> nat) \<Rightarrow> pynum list list \<Rightarrow> 'a list \<Rightarrow> 'a option list \<Rightarrow> rat" where
  "typing_cost freq penalty2 letters result =
     sum_list (map (\<lambda>(s1, s2). of_nat (freq s1 s2)
                                * num_value (penalty2 ! position_in result s1 ! position_in result s2))
                   (permutations2 letters))"

text \<open>
  The cost of the pairs that are typed from a lower-numbered to a higher-numbered key, on
  the layout \<open>pos\<close>.
\<close>

definition ascending_cost :: "('a \<Rightarrow> 'a \<Rightarrow> nat) \<Rightarrow> pynum list list \<Rightarrow> 'a list \<Rightarrow> ('a \<Rightarrow> nat) \<Rightarrow> rat" where
  "ascending_cost freq penalty2 letters pos =
     sum_list (map (\<lambda>(s1, s2). if pos s1 < pos s2
                                then of_nat (freq s1 s2) * num_value (penalty2 ! pos s1 ! pos s2) else 0)
                   (permutations2 letters))"

text \<open>A matrix of integers, and a coefficient multiplied by a constant, exactly.\<close>

definition int_matrix :: "int list list \<Rightarrow> pynum list list" where
  "int_matrix P = map (map PyInt) P"


text \<open>Two small instances: the letters \<open>A\<close>, \<open>B\<close> on the keys 0 and 1.\<close>

definition pos_AB :: "char \<Rightarrow> nat" where
  "pos_AB c = (if c = CHR ''A'' then 0 else 1)"

definition penalty_01 :: "pynum list list" where
  "penalty_01 = int_matrix [[0, 1], [1, 0]]"

text \<open>
  The same keys with the float \<open>0.1\<close> between them: the binary64 value nearest to one
  tenth.
\<close>

definition tenth :: rat where
  "tenth = 3602879701896397 / 36028797018963968"


text \<open>The model the function builds for the letters \<open>AB\<close>, the corpus \<open>BA\<close> and that matrix.\<close>

definition model_AB :: "char model" where
  "model_AB =
     \<lparr> variables = make_variables ''AB'',
       constraints = constraints1 ''AB'' @ constraints2 ''AB'' @ constraints3 ''AB'',
       objective = [(LinkV (CHR ''A'') (CHR ''B'') 0 1, Num (PyInt 0)),
                    (LinkV (CHR ''B'') (CHR ''A'') 0 1, Num (PyInt 1))] \<rparr>"

text \<open>The same letters and matrix with the empty corpus.\<close>

definition model_AB_empty :: "char model" where
  "model_AB_empty =
     \<lparr> variables = make_variables ''AB'',
       constraints = constraints1 ''AB'' @ constraints2 ''AB'' @ constraints3 ''AB'',
       objective = [(LinkV (CHR ''A'') (CHR ''B'') 0 1, Num (PyInt 0)),
                    (LinkV (CHR ''B'') (CHR ''A'') 0 1, Num (PyInt 0))] \<rparr>"

section \<open>Frequency extraction\<close>

lemma occurrences2_Cons:
  "occurrences2 (c # d # cs) s1 s2 =
     (if c = s1 \<and> d = s2 then 1 else 0) + occurrences2 (d # cs) s1 s2"
proof -
  have "[0..<length (c # d # cs) - 1] = 0 # map Suc [0..<length (d # cs) - 1]"
    by (simp add: upt_conv_Cons map_Suc_upt del: upt_Suc)
  then show ?thesis
    unfolding occurrences2_def by (simp add: filter_map comp_def del: upt_Suc)
qed

lemma occurrences2_short: "occurrences2 [] s1 s2 = 0" "occurrences2 [c] s1 s2 = 0"
  by (simp_all add: occurrences2_def)

lemma count_str_pair:
  "s1 \<noteq> s2 \<Longrightarrow> count_str inp [s1, s2] = occurrences2 inp s1 s2"
proof (induction inp "[s1, s2]" rule: count_str.induct)
  case 2
  then show ?case by (simp add: occurrences2_short)
next
  case (3 c cs)
  show ?case
  proof (cases cs)
    case Nil
    then show ?thesis by (simp add: occurrences2_short)
  next
    case (Cons d ds)
    show ?thesis
    proof (cases "c = s1 \<and> d = s2")
      case True
      have "occurrences2 (d # ds) s1 s2 = occurrences2 ds s1 s2"
        using True 3(3) by (cases ds) (auto simp: occurrences2_Cons occurrences2_short)
      then show ?thesis using 3 True Cons by (simp add: occurrences2_Cons)
    next
      case False
      then show ?thesis using 3 Cons by (auto simp add: occurrences2_Cons)
    qed
  qed
qed

text \<open>
  C4: for two distinct symbols the frequency the objective uses, Python's
  non-overlapping \<open>count\<close> of the two-character string, is the number of places in the
  corpus where the first symbol is immediately followed by the second.
\<close>

theorem freq_of_counts_adjacent:
  "s1 \<noteq> s2 \<Longrightarrow> freq_of inp s1 s2 = occurrences2 inp s1 s2"
  by (simp add: freq_of_def count_str_pair)

theorem freq_of_counts_adjacent_witness:
  "CHR ''A'' \<noteq> CHR ''B'' \<and> freq_of ''ABBAAB'' (CHR ''A'') (CHR ''B'') = 2
     \<and> occurrences2 ''ABBAAB'' (CHR ''A'') (CHR ''B'') = 2"
proof -
  have d: "CHR ''A'' \<noteq> CHR ''B''" by simp
  have "freq_of ''ABBAAB'' (CHR ''A'') (CHR ''B'') = 2" by (simp add: freq_of_def)
  with d freq_of_counts_adjacent [OF d, of "''ABBAAB''"] show ?thesis by simp
qed

text \<open>
  C6, as the specification states it, fails: in the corpus \<open>ABABAB\<close> the pair
  \<open>(A, B)\<close> does not have frequency 2.
\<close>

theorem freq_ABABAB_counterexample:
  "\<not> (freq_of ''ABABAB'' (CHR ''A'') (CHR ''B'') = 2 \<and> freq_of ''ABABAB'' (CHR ''B'') (CHR ''A'') = 2)"
  by (simp add: freq_of_def)

text \<open>
  C6, amended: for the corpus \<open>ABABAB\<close> the frequency of \<open>(A, B)\<close> is 3 and the
  frequency of \<open>(B, A)\<close> is 2.
\<close>

theorem freq_ABABAB:
  "freq_of ''ABABAB'' (CHR ''A'') (CHR ''B'') = 3 \<and> freq_of ''ABABAB'' (CHR ''B'') (CHR ''A'') = 2"
  by (simp add: freq_of_def)

section \<open>The constraints\<close>

lemma set_combinations2_positions:
  "set (combinations2 (positions letters)) = {(k1, k2). k1 < k2 \<and> k2 < length letters}"
  by (fastforce simp: combinations2_def positions_def image_iff)

lemma set_permutations2:
  "set (permutations2 xs) = {(xs ! i, xs ! j) | i j. i < length xs \<and> j < length xs \<and> i \<noteq> j}"
  by (fastforce simp: permutations2_def image_iff)

lemma permutations2_mem:
  "s1 \<in> set xs \<Longrightarrow> s2 \<in> set xs \<Longrightarrow> s1 \<noteq> s2 \<Longrightarrow> (s1, s2) \<in> set (permutations2 xs)"
  unfolding set_permutations2 by (auto simp: in_set_conv_nth)

lemma permutations2_subset:
  "(s1, s2) \<in> set (permutations2 xs) \<Longrightarrow> s1 \<in> set xs \<and> s2 \<in> set xs"
  unfolding set_permutations2 by auto

lemma feasible_build:
  "build_model freq penalty2 letters = Inr m \<Longrightarrow>
   feasible m v \<longleftrightarrow>
     list_all (sat v) (constraints1 letters) \<and> list_all (sat v) (constraints2 letters)
     \<and> list_all (sat v) (constraints3 letters)"
  by (auto simp: build_model_def feasible_def split: sum.splits)

lemma sat_constraints3:
  "list_all (sat v) (constraints3 letters) \<longleftrightarrow>
   (\<forall>(l1, l2) \<in> set (permutations2 letters). \<forall>(k1, k2) \<in> set (combinations2 (positions letters)).
      v (LinkV l1 l2 k1 k2) \<longleftrightarrow> v (AssignV l1 k1) \<and> v (AssignV l2 k2))"
  unfolding constraints3_def list_all_iff link_constraints_def
  by (simp add: split_def) blast

lemmas eval_build =
  build_model_def objective_terms_def objective_term_def penalty_at_def nth_py_def
  permutations2_def combinations2_def positions_def int_matrix_def

lemmas eval_constraints =
  constraints1_def constraints2_def constraints3_def link_constraints_def bool_sum_def
  permutations2_def combinations2_def positions_def

text \<open>
  C2: in every feasible assignment of the built model, for two distinct letters and two
  keys \<open>k1 < k2\<close>, the link variable is true exactly when both assignment variables are.
\<close>

theorem link_iff_and:
  assumes "build_model freq penalty2 letters = Inr m" and "feasible m v"
    and "s1 \<in> set letters" and "s2 \<in> set letters" and "s1 \<noteq> s2"
    and "k1 < k2" and "k2 < length letters"
  shows "v (LinkV s1 s2 k1 k2) \<longleftrightarrow> v (AssignV s1 k1) \<and> v (AssignV s2 k2)"
proof -
  have c3: "list_all (sat v) (constraints3 letters)"
    using assms(1,2) by (simp add: feasible_build)
  have p: "(s1, s2) \<in> set (permutations2 letters)"
    using assms(3-5) by (rule permutations2_mem)
  have k: "(k1, k2) \<in> set (combinations2 (positions letters))"
    using assms(6,7) by (simp add: set_combinations2_positions)
  from c3 p k show ?thesis
    unfolding sat_constraints3 by blast
qed

lemma build_AB: "build_model (freq_of ''BA'') penalty_01 ''AB'' = Inr model_AB"
  by (simp add: eval_build penalty_01_def model_AB_def freq_of_def)

lemma feasible_AB: "feasible model_AB (valuation_of pos_AB)"
  by (simp add: feasible_def model_AB_def eval_constraints pos_AB_def)

theorem link_iff_and_witness:
  "build_model (freq_of ''BA'') penalty_01 ''AB'' = Inr model_AB
   \<and> feasible model_AB (valuation_of pos_AB)
   \<and> CHR ''A'' \<in> set ''AB'' \<and> CHR ''B'' \<in> set ''AB'' \<and> CHR ''A'' \<noteq> CHR ''B''
   \<and> (0::nat) < 1 \<and> 1 < length ''AB''
   \<and> (valuation_of pos_AB (LinkV (CHR ''A'') (CHR ''B'') 0 1) \<longleftrightarrow>
        valuation_of pos_AB (AssignV (CHR ''A'') 0) \<and> valuation_of pos_AB (AssignV (CHR ''B'') 1))"
proof -
  have a: "CHR ''A'' \<in> set ''AB''" "CHR ''B'' \<in> set ''AB''" "CHR ''A'' \<noteq> CHR ''B''"
       "(0::nat) < 1" "1 < length ''AB''"
    by simp_all
  from link_iff_and [OF build_AB feasible_AB a] build_AB feasible_AB a
  show ?thesis by blast
qed

section \<open>Decoding\<close>

lemma length_decode_letter:
  "length (decode_letter v keys letter r) = length r"
  unfolding decode_letter_def by (induction keys arbitrary: r) auto

lemma nth_decode_letter:
  "k < length r \<Longrightarrow>
   decode_letter v keys letter r ! k =
     (if k \<in> set keys \<and> v (AssignV letter k) then Some letter else r ! k)"
  unfolding decode_letter_def
proof (induction keys arbitrary: r)
  case Nil
  then show ?case by simp
next
  case (Cons a keys)
  then show ?case by (cases "a = k") auto
qed

lemma length_fold_decode:
  "length (fold (decode_letter v keys) ls r) = length r"
  by (induction ls arbitrary: r) (auto simp: length_decode_letter)

text \<open>A slot ends with the last letter, in the order of the alphabet, whose variable is true.\<close>

lemma nth_fold_decode:
  "k < length r \<Longrightarrow> k \<in> set keys \<Longrightarrow>
   fold (decode_letter v keys) ls r ! k =
     (case filter (\<lambda>l. v (AssignV l k)) ls of [] \<Rightarrow> r ! k | x # xs \<Rightarrow> Some (last (x # xs)))"
proof (induction ls arbitrary: r)
  case Nil
  then show ?case by simp
next
  case (Cons l ls)
  have len: "k < length (decode_letter v keys l r)"
    using Cons.prems by (simp add: length_decode_letter)
  show ?case
    using Cons.IH [OF len Cons.prems(2)] Cons.prems
    by (auto simp: nth_decode_letter split: list.splits)
qed

lemma length_decode: "length (decode v letters) = length letters"
  by (simp add: decode_def length_fold_decode)

lemma nth_decode:
  "k < length letters \<Longrightarrow>
   decode v letters ! k =
     (case filter (\<lambda>l. v (AssignV l k)) letters of [] \<Rightarrow> None | x # xs \<Rightarrow> Some (last (x # xs)))"
  unfolding decode_def
  by (subst nth_fold_decode) (auto simp: positions_def split: list.splits)



text \<open>
  C7, as the specification states it, fails: when the engine reports \<open>OPTIMAL\<close> with
  no assignment variable true, the function returns the array of unset slots as its
  normal result.
\<close>

theorem decode_inconsistency_counterexample:
  "optimize_keymap (\<lambda>m. (OPTIMAL, \<lambda>x. False)) penalty_01 ''AB'' ''BA'' = Inr (Some [None, None])"
  by (simp add: optimize_keymap_def build_AB decode_def decode_letter_def positions_def)

text \<open>
  C7, amended: if the engine reports \<open>OPTIMAL\<close> or \<open>FEASIBLE\<close> and for some
  position no letter's assignment variable is true, the decoder leaves that slot unset
  and the function returns the array, of full length and with \<open>None\<close> in that slot, as
  its normal result.
\<close>

theorem unset_slot_returned:
  assumes "build_model (freq_of input_text) penalty2 letters = Inr m" and "solve m = (st, v)"
    and "st = OPTIMAL \<or> st = FEASIBLE"
    and "k < length letters" and "\<forall>l \<in> set letters. \<not> v (AssignV l k)"
  shows "optimize_keymap solve penalty2 letters input_text = Inr (Some (decode v letters))
       \<and> length (decode v letters) = length letters \<and> decode v letters ! k = None"
proof -
  have "filter (\<lambda>l. v (AssignV l k)) letters = []"
    using assms(5) by (simp add: filter_empty_conv)
  then have "decode v letters ! k = None"
    using assms(4) by (simp add: nth_decode)
  then show ?thesis
    using assms(1-3) by (auto simp add: optimize_keymap_def length_decode)
qed

theorem unset_slot_returned_witness:
  "build_model (freq_of ''BA'') penalty_01 ''AB'' = Inr model_AB
   \<and> (1::nat) < length ''AB''
   \<and> \<not> valuation_of (\<lambda>c. 0) (AssignV (CHR ''A'') 1)
   \<and> \<not> valuation_of (\<lambda>c. 0) (AssignV (CHR ''B'') 1)
   \<and> optimize_keymap (\<lambda>m. (OPTIMAL, valuation_of (\<lambda>c. 0))) penalty_01 ''AB'' ''BA''
       = Inr (Some [Some (CHR ''B''), None])"
proof -
  have s: "(\<lambda>m::char model. (OPTIMAL, valuation_of (\<lambda>c::char. 0))) model_AB
             = (OPTIMAL, valuation_of (\<lambda>c. 0))"
    by simp
  have k: "(1::nat) < length ''AB''" by simp
  have n: "\<forall>l \<in> set ''AB''. \<not> valuation_of (\<lambda>c. 0) (AssignV l 1)" by simp
  have d: "decode (valuation_of (\<lambda>c. 0)) ''AB'' = [Some (CHR ''B''), None]"
    by (simp add: decode_def decode_letter_def positions_def)
  from unset_slot_returned [OF build_AB s _ k n] d build_AB k n
  show ?thesis by simp
qed

section \<open>The assignment is a bijection\<close>

lemma bool_sum_filter: "bool_sum v (map f xs) = int (length (filter (\<lambda>x. v (f x)) xs))"
  unfolding bool_sum_def by (induction xs) auto

lemma sat_constraints1:
  "list_all (sat v) (constraints1 letters) \<longleftrightarrow>
   (\<forall>l \<in> set letters. length (filter (\<lambda>k. v (AssignV l k)) [0..<length letters]) = 1)"
  by (simp add: constraints1_def list_all_iff bool_sum_filter positions_def)

lemma sat_constraints2:
  "list_all (sat v) (constraints2 letters) \<longleftrightarrow>
   (\<forall>k < length letters. length (filter (\<lambda>l. v (AssignV l k)) letters) \<le> 1)"
  by (auto simp add: constraints2_def list_all_iff bool_sum_filter positions_def)

lemma double_count:
  "sum_list (map (\<lambda>k. length (filter (\<lambda>l. P l k) ls)) ks)
     = sum_list (map (\<lambda>l. length (filter (\<lambda>k. P l k) ks)) ls)"
proof (induction ls)
  case Nil
  then show ?case by simp
next
  case (Cons l ls)
  have one: "sum_list (map (\<lambda>k. if P l k then 1 else 0) ks) = length (filter (P l) ks)"
    by (induction ks) auto
  have "sum_list (map (\<lambda>k. length (filter (\<lambda>l. P l k) (l # ls))) ks)
      = sum_list (map (\<lambda>k. (if P l k then 1 else 0) + length (filter (\<lambda>l. P l k) ls)) ks)"
    by (rule arg_cong [where f = sum_list]) auto
  also have "\<dots> = sum_list (map (\<lambda>k. if P l k then 1 else 0) ks)
                 + sum_list (map (\<lambda>k. length (filter (\<lambda>l. P l k) ls)) ks)"
    by (simp add: sum_list_addf)
  finally show ?case using Cons one by simp
qed

lemma sum_list_all_one:
  fixes f :: "'b \<Rightarrow> nat"
  assumes "\<forall>x \<in> set xs. f x \<le> 1" and "sum_list (map f xs) = length xs"
  shows "\<forall>x \<in> set xs. f x = 1"
  using assms
proof (induction xs)
  case Nil
  then show ?case by simp
next
  case (Cons x xs)
  have le: "sum_list (map f xs) \<le> length xs"
    using Cons.prems(1) by (induction xs) (auto simp: le_Suc_eq)
  have fx: "f x \<le> 1" using Cons.prems(1) by simp
  from Cons.prems(2) le fx have "f x = 1" "sum_list (map f xs) = length xs" by auto
  with Cons show ?case by simp
qed

lemma sum_list_const_one:
  fixes f :: "'b \<Rightarrow> nat"
  shows "\<forall>x \<in> set xs. f x = 1 \<Longrightarrow> sum_list (map f xs) = length xs"
  by (induction xs) auto

lemma each_key_one:
  assumes c1: "list_all (sat v) (constraints1 letters)"
    and c2: "list_all (sat v) (constraints2 letters)"
    and k: "k < length letters"
  shows "length (filter (\<lambda>l. v (AssignV l k)) letters) = 1"
proof -
  let ?ks = "[0..<length letters]"
  have "sum_list (map (\<lambda>k. length (filter (\<lambda>l. v (AssignV l k)) letters)) ?ks)
      = sum_list (map (\<lambda>l. length (filter (\<lambda>k. v (AssignV l k)) ?ks)) letters)"
    by (rule double_count)
  also have "\<dots> = length letters"
    using c1 unfolding sat_constraints1 by (intro sum_list_const_one) simp
  finally have total: "sum_list (map (\<lambda>k. length (filter (\<lambda>l. v (AssignV l k)) letters)) ?ks)
      = length ?ks" by simp
  have "\<forall>k \<in> set ?ks. length (filter (\<lambda>l. v (AssignV l k)) letters) \<le> 1"
    using c2 unfolding sat_constraints2 by simp
  from sum_list_all_one [OF this total] k show ?thesis by simp
qed

lemma length_filter_one_ex1:
  "length (filter P xs) = 1 \<Longrightarrow> \<exists>!x. x \<in> set xs \<and> P x"
proof -
  assume "length (filter P xs) = 1"
  then obtain y where y: "filter P xs = [y]"
    by (cases "filter P xs") auto
  then have "set (filter P xs) = {y}" by simp
  then have "\<And>x. (x \<in> set xs \<and> P x) = (x = y)" by auto
  then show ?thesis by simp
qed

lemma each_letter_one_key:
  assumes "list_all (sat v) (constraints1 letters)" and "l \<in> set letters"
  shows "\<exists>!k. k < length letters \<and> v (AssignV l k)"
proof -
  have "length (filter (\<lambda>k. v (AssignV l k)) [0..<length letters]) = 1"
    using assms unfolding sat_constraints1 by simp
  from length_filter_one_ex1 [OF this] show ?thesis by simp
qed

lemma decode_feasible_nth:
  assumes c1: "list_all (sat v) (constraints1 letters)"
    and c2: "list_all (sat v) (constraints2 letters)"
    and k: "k < length letters"
  shows "\<exists>s. filter (\<lambda>l. v (AssignV l k)) letters = [s] \<and> decode v letters ! k = Some s"
proof -
  have "length (filter (\<lambda>l. v (AssignV l k)) letters) = 1"
    using c1 c2 k by (rule each_key_one)
  then obtain s where s: "filter (\<lambda>l. v (AssignV l k)) letters = [s]"
    by (cases "filter (\<lambda>l. v (AssignV l k)) letters") auto
  then show ?thesis using k by (simp add: nth_decode)
qed

lemma decode_bijection:
  assumes c1: "list_all (sat v) (constraints1 letters)"
    and c2: "list_all (sat v) (constraints2 letters)"
  shows "(\<forall>s \<in> set letters. \<exists>!k. k < length letters \<and> decode v letters ! k = Some s)
       \<and> (\<forall>k < length letters. \<exists>s \<in> set letters. decode v letters ! k = Some s)"
proof -
  have slot: "decode v letters ! k = Some s \<longleftrightarrow> s \<in> set letters \<and> v (AssignV s k)"
    if k: "k < length letters" for k s
  proof -
    obtain t where t: "filter (\<lambda>l. v (AssignV l k)) letters = [t]" "decode v letters ! k = Some t"
      using decode_feasible_nth [OF c1 c2 k] by blast
    have "set (filter (\<lambda>l. v (AssignV l k)) letters) = {t}" using t(1) by simp
    then have "\<And>x. (x \<in> set letters \<and> v (AssignV x k)) = (x = t)" by auto
    then show ?thesis using t(2) by auto
  qed
  have a: "\<exists>!k. k < length letters \<and> decode v letters ! k = Some s" if s: "s \<in> set letters" for s
  proof -
    have "\<exists>!k. k < length letters \<and> v (AssignV s k)"
      using c1 s by (rule each_letter_one_key)
    moreover have "\<And>k. (k < length letters \<and> decode v letters ! k = Some s)
                     = (k < length letters \<and> v (AssignV s k))"
      using slot s by blast
    ultimately show ?thesis by simp
  qed
  have b: "\<exists>s \<in> set letters. decode v letters ! k = Some s" if k: "k < length letters" for k
  proof -
    obtain t where t: "filter (\<lambda>l. v (AssignV l k)) letters = [t]" "decode v letters ! k = Some t"
      using decode_feasible_nth [OF c1 c2 k] by blast
    have "t \<in> set (filter (\<lambda>l. v (AssignV l k)) letters)" using t(1) by simp
    then show ?thesis using t(2) by auto
  qed
  from a b show ?thesis by blast
qed

lemma distinct_if_filter_le_one:
  "\<forall>x \<in> set xs. length (filter (\<lambda>y. y = x) xs) \<le> 1 \<Longrightarrow> distinct xs"
proof (induction xs)
  case Nil
  then show ?case by simp
next
  case (Cons a xs)
  have "filter (\<lambda>y. y = a) xs = []"
    using Cons.prems by simp
  then have a: "a \<notin> set xs"
    by (auto simp: filter_empty_conv)
  have "\<forall>x \<in> set xs. length (filter (\<lambda>y. y = x) xs) \<le> 1"
  proof
    fix x assume x: "x \<in> set xs"
    then have "length (filter (\<lambda>y. y = x) (a # xs)) \<le> 1" using Cons.prems by simp
    then show "length (filter (\<lambda>y. y = x) xs) \<le> 1" by (simp split: if_splits)
  qed
  with Cons.IH a show ?case by simp
qed

lemma feasible_distinct:
  assumes c1: "list_all (sat v) (constraints1 letters)"
    and c2: "list_all (sat v) (constraints2 letters)"
  shows "distinct letters"
proof (rule distinct_if_filter_le_one, rule ballI)
  fix l assume l: "l \<in> set letters"
  then obtain k where k: "k < length letters" "v (AssignV l k)"
    using each_letter_one_key [OF c1 l] by blast
  have "filter (\<lambda>y. y = l) letters = filter (\<lambda>y. y = l) (filter (\<lambda>x. v (AssignV x k)) letters)"
    using k(2) by (auto intro: filter_cong)
  also have "length \<dots> \<le> length (filter (\<lambda>x. v (AssignV x k)) letters)"
    by (rule length_filter_le)
  also have "\<dots> = 1" using c1 c2 k(1) by (rule each_key_one)
  finally show "length (filter (\<lambda>y. y = l) letters) \<le> 1" .
qed

lemma assign_keys_make_variables:
  "{k. \<exists>l. AssignV l k \<in> set (make_variables letters)} = set (positions letters)"
proof (intro set_eqI iffI)
  fix k assume "k \<in> {k. \<exists>l. AssignV l k \<in> set (make_variables letters)}"
  then show "k \<in> set (positions letters)"
    by (auto simp: make_variables_def)
next
  fix k assume k: "k \<in> set (positions letters)"
  then have "letters \<noteq> []" by (auto simp: positions_def)
  then have "hd letters \<in> set letters" by simp
  with k have "AssignV (hd letters) k \<in> set (make_variables letters)"
    by (auto simp: make_variables_def)
  then show "k \<in> {k. \<exists>l. AssignV l k \<in> set (make_variables letters)}" by blast
qed

lemma assign_keys_of_model:
  "build_model freq penalty2 letters = Inr m \<Longrightarrow>
   {k. \<exists>l. AssignV l k \<in> set (variables m)} = set (positions letters)"
proof -
  assume "build_model freq penalty2 letters = Inr m"
  then have "variables m = make_variables letters"
    by (auto simp: build_model_def split: sum.splits)
  then show ?thesis by (simp add: assign_keys_make_variables)
qed

text \<open>
  C3: whenever the function returns an array (the status is \<open>OPTIMAL\<close> or
  \<open>FEASIBLE\<close>, and the engine's valuation then satisfies the constraints), the array
  has one slot per letter, every letter of the alphabet stands in exactly one slot, every
  slot holds a letter of the alphabet, and no slot is empty.
\<close>

theorem optimize_keymap_bijection:
  assumes "build_model (freq_of input_text) penalty2 letters = Inr m" and "solve m = (st, v)"
    and "st = OPTIMAL \<or> st = FEASIBLE \<longrightarrow> feasible m v"
    and "optimize_keymap solve penalty2 letters input_text = Inr (Some r)"
  shows "length r = length letters
       \<and> (\<forall>s \<in> set letters. \<exists>!k. k < length r \<and> r ! k = Some s)
       \<and> (\<forall>k < length r. \<exists>s \<in> set letters. r ! k = Some s)
       \<and> None \<notin> set r"
proof -
  from assms(1,2,4) have st: "st = OPTIMAL \<or> st = FEASIBLE" and r: "r = decode v letters"
    by (auto simp: optimize_keymap_def split: if_splits)
  from st assms(3) have "feasible m v" by simp
  then have c: "list_all (sat v) (constraints1 letters)" "list_all (sat v) (constraints2 letters)"
    using assms(1) by (simp_all add: feasible_build)
  have len: "length r = length letters" by (simp add: r length_decode)
  have bij: "(\<forall>s \<in> set letters. \<exists>!k. k < length r \<and> r ! k = Some s)
       \<and> (\<forall>k < length r. \<exists>s \<in> set letters. r ! k = Some s)"
    using decode_bijection [OF c] unfolding r length_decode .
  then have "None \<notin> set r"
    by (auto simp: in_set_conv_nth)
  with len bij show ?thesis by simp
qed

theorem optimize_keymap_bijection_witness:
  "build_model (freq_of ''BA'') penalty_01 ''AB'' = Inr model_AB
   \<and> feasible model_AB (valuation_of pos_AB)
   \<and> optimize_keymap (\<lambda>m. (FEASIBLE, valuation_of pos_AB)) penalty_01 ''AB'' ''BA''
       = Inr (Some [Some (CHR ''A''), Some (CHR ''B'')])
   \<and> length [Some (CHR ''A''), Some (CHR ''B'')] = length ''AB''
   \<and> None \<notin> set [Some (CHR ''A''), Some (CHR ''B'')]"
proof -
  have s: "(\<lambda>m::char model. (FEASIBLE, valuation_of pos_AB)) model_AB = (FEASIBLE, valuation_of pos_AB)"
    by simp
  have f: "FEASIBLE = OPTIMAL \<or> FEASIBLE = FEASIBLE \<longrightarrow> feasible model_AB (valuation_of pos_AB)"
    using feasible_AB by simp
  have o: "optimize_keymap (\<lambda>m. (FEASIBLE, valuation_of pos_AB)) penalty_01 ''AB'' ''BA''
       = Inr (Some [Some (CHR ''A''), Some (CHR ''B'')])"
    by (simp add: optimize_keymap_def build_AB decode_def decode_letter_def positions_def pos_AB_def)
  note t = optimize_keymap_bijection [OF build_AB s f o]
  have l: "length [Some (CHR ''A''), Some (CHR ''B'')] = length ''AB''"
    by (rule t [THEN conjunct1])
  have n: "None \<notin> set [Some (CHR ''A''), Some (CHR ''B'')]"
    by (rule t [THEN conjunct2, THEN conjunct2, THEN conjunct2])
  show ?thesis
    by (intro conjI build_AB feasible_AB o l n)
qed

text \<open>
  C10: the key positions are \<open>range(len(letters))\<close>, as many as there are letters, and
  they are the keys of the assignment variables of the model; so in every feasible
  assignment of every model the function builds, the exactly-one and at-most-one
  constraints force a bijection: every letter is on exactly one key, every key carries
  exactly one letter (and the letters are pairwise distinct).
\<close>

theorem feasible_forces_bijection:
  assumes "build_model freq penalty2 letters = Inr m" and "feasible m v"
  shows "positions letters = [0..<length letters]
       \<and> {k. \<exists>l. AssignV l k \<in> set (variables m)} = set (positions letters)
       \<and> length (positions letters) = length letters
       \<and> distinct letters
       \<and> (\<forall>s \<in> set letters. \<exists>!k. k \<in> set (positions letters) \<and> v (AssignV s k))
       \<and> (\<forall>k \<in> set (positions letters). \<exists>!s. s \<in> set letters \<and> v (AssignV s k))"
proof -
  have c: "list_all (sat v) (constraints1 letters)" "list_all (sat v) (constraints2 letters)"
    using assms by (simp_all add: feasible_build)
  have a: "\<forall>s \<in> set letters. \<exists>!k. k \<in> set (positions letters) \<and> v (AssignV s k)"
    using each_letter_one_key [OF c(1)] by (simp add: positions_def)
  have b: "\<forall>k \<in> set (positions letters). \<exists>!s. s \<in> set letters \<and> v (AssignV s k)"
    using length_filter_one_ex1 [OF each_key_one [OF c]] by (simp add: positions_def)
  show ?thesis
    using a b feasible_distinct [OF c] assign_keys_of_model [OF assms(1)]
    by (simp add: positions_def)
qed

theorem feasible_forces_bijection_witness:
  "build_model (freq_of ''BA'') penalty_01 ''AB'' = Inr model_AB
   \<and> feasible model_AB (valuation_of pos_AB)
   \<and> length (positions ''AB'') = length ''AB''
   \<and> distinct ''AB''
   \<and> (\<exists>!k. k \<in> set (positions ''AB'') \<and> valuation_of pos_AB (AssignV (CHR ''B'') k))
   \<and> (\<exists>!s. s \<in> set ''AB'' \<and> valuation_of pos_AB (AssignV s 0))"
proof -
  note t = feasible_forces_bijection [OF build_AB feasible_AB]
  note t2 = t [THEN conjunct2, THEN conjunct2]
  note t4 = t2 [THEN conjunct2, THEN conjunct2]
  have b: "CHR ''B'' \<in> set ''AB''" by simp
  have z: "0 \<in> set (positions ''AB'')" by (simp add: positions_def)
  show ?thesis
    by (intro conjI build_AB feasible_AB t2 [THEN conjunct1] t2 [THEN conjunct2, THEN conjunct1]
          bspec [OF t4 [THEN conjunct1] b] bspec [OF t4 [THEN conjunct2] z])
qed

section \<open>The objective\<close>

text \<open>
  An integer matrix with an entry for every pair of keys \<open>k1 < k2\<close> lets the function
  build its model.
\<close>

lemma sequence_err_all_Inr:
  "\<forall>x \<in> set xs. \<exists>y. x = Inr y \<Longrightarrow> \<exists>ys. sequence_err xs = Inr ys"
  by (induction xs) auto

lemma objective_term_int_matrix:
  "objective_term freq (int_matrix P) l1 l2 k1 k2 =
     (if k1 < length P \<and> k2 < length (P ! k1)
      then Inr (LinkV l1 l2 k1 k2, Num (PyInt (int (freq l1 l2) * P ! k1 ! k2)))
      else Inl IndexError)"
  by (simp add: objective_term_def penalty_at_def nth_py_def int_matrix_def)

lemma build_model_succeeds:
  assumes "\<forall>k1 k2. k1 < k2 \<and> k2 < length letters
             \<longrightarrow> k1 < length P \<and> k2 < length (P ! k1)"
  shows "\<exists>m. build_model freq (int_matrix P) letters = Inr m"
proof -
  have "\<exists>ts. objective_terms freq (int_matrix P) letters = Inr ts"
    unfolding objective_terms_def
  proof (rule sequence_err_all_Inr, rule ballI)
    fix x
    assume "x \<in> set (concat (map (\<lambda>(l1, l2).
                map (\<lambda>(k1, k2). objective_term freq (int_matrix P) l1 l2 k1 k2)
                    (combinations2 (positions letters)))
              (permutations2 letters)))"
    then obtain l1 l2 k1 k2 where k: "(k1, k2) \<in> set (combinations2 (positions letters))"
      and x: "x = objective_term freq (int_matrix P) l1 l2 k1 k2"
      by auto
    from k have "k1 < k2 \<and> k2 < length letters"
      by (simp add: set_combinations2_positions)
    with assms have "k1 < length P \<and> k2 < length (P ! k1)" by blast
    then show "\<exists>y. x = Inr y"
      by (simp add: x objective_term_int_matrix)
  qed
  then show ?thesis by (auto simp: build_model_def)
qed

lemma sequence_err_Inr:
  "sequence_err xs = Inr ys \<Longrightarrow> xs = map Inr ys"
  by (induction xs arbitrary: ys) (auto split: sum.splits)


lemma objective_term_cases:
  "objective_term freq penalty2 l1 l2 k1 k2 = Inr t \<Longrightarrow>
   \<exists>p c. t = (LinkV l1 l2 k1 k2, c) \<and> penalty_at penalty2 k1 k2 = Inr p
          \<and> py_mul (freq l1 l2) p = Inr c"
  by (auto simp: objective_term_def split: sum.splits)

lemma objective_terms_coef:
  assumes "objective_terms freq penalty2 letters = Inr ts" and "(x, w) \<in> set ts"
  shows "\<exists>l1 l2 k1 k2 p. x = LinkV l1 l2 k1 k2 \<and> penalty_at penalty2 k1 k2 = Inr p
           \<and> py_mul (freq l1 l2) p = Inr w"
proof -
  let ?L = "concat (map (\<lambda>(l1, l2). map (\<lambda>(k1, k2). objective_term freq penalty2 l1 l2 k1 k2)
                                     (combinations2 (positions letters)))
                    (permutations2 letters))"
  from assms(1) have "?L = map Inr ts"
    unfolding objective_terms_def by (rule sequence_err_Inr)
  moreover have "Inr (x, w) \<in> set (map Inr ts)" using assms(2) by simp
  ultimately have "Inr (x, w) \<in> set ?L" by simp
  then obtain l1 l2 k1 k2 where "objective_term freq penalty2 l1 l2 k1 k2 = Inr (x, w)"
    by auto
  from objective_term_cases [OF this] show ?thesis by blast
qed

text \<open>Frequency 0 gives the coefficient 0, with an int entry and with a float entry.\<close>

lemma py_mul_zero: "py_mul 0 p = Inr w \<Longrightarrow> coef_value w = Some 0"
  by (cases p) (auto simp: int_to_double_def double_round_def double_finite_def)

lemma weighted_sum_zero:
  "\<forall>(x, w) \<in> set ts. coef_value w = Some 0 \<Longrightarrow> weighted_sum ts v = 0"
  unfolding weighted_sum_def by (induction ts) auto

lemma finite_objective_zero:
  "\<forall>(x, w) \<in> set (objective m). coef_value w = Some 0 \<Longrightarrow> finite_objective m"
  unfolding finite_objective_def list_all_iff by auto






lemma finite_objective_int_matrix:
  assumes "objective_terms freq (int_matrix P) letters = Inr (objective m)"
  shows "finite_objective m"
proof -
  have "coef_value w \<noteq> None" if "(x, w) \<in> set (objective m)" for x w
  proof -
    from objective_terms_coef [OF assms that]
    obtain l1 l2 k1 k2 p where p: "penalty_at (int_matrix P) k1 k2 = Inr p"
      and w: "py_mul (freq l1 l2) p = Inr w"
      by blast
    from p obtain i where "p = PyInt i"
      by (auto simp: penalty_at_def nth_py_def int_matrix_def split: if_splits)
    with w show ?thesis by auto
  qed
  then show ?thesis
    unfolding finite_objective_def list_all_iff by auto
qed

lemma build_model_Inr:
  "build_model freq penalty2 letters = Inr m \<Longrightarrow>
   objective_terms freq penalty2 letters = Inr (objective m)
   \<and> constraints m = constraints1 letters @ constraints2 letters @ constraints3 letters
   \<and> variables m = make_variables letters"
  by (auto simp: build_model_def split: sum.splits)

lemma valuation_of_feasible:
  assumes b: "build_model freq penalty2 letters = Inr m"
    and bij: "bij_betw pos (set letters) {..<length letters}"
  shows "feasible m (valuation_of pos)"
proof -
  have inj: "inj_on pos (set letters)" and img: "pos ` set letters = {..<length letters}"
    using bij by (auto simp: bij_betw_def)
  have "card (set letters) = card {..<length letters}"
    using bij by (rule bij_betw_same_card)
  then have d: "distinct letters" by (simp add: card_distinct)
  have c1: "list_all (sat (valuation_of pos)) (constraints1 letters)"
    unfolding sat_constraints1
  proof
    fix l assume l: "l \<in> set letters"
    then have "pos l < length letters" using img by auto
    then have "{k. pos l = k} \<inter> set [0..<length letters] = {pos l}" by auto
    then show "length (filter (\<lambda>k. valuation_of pos (AssignV l k)) [0..<length letters]) = 1"
      by (simp add: distinct_length_filter)
  qed
  have c2: "list_all (sat (valuation_of pos)) (constraints2 letters)"
    unfolding sat_constraints2
  proof (intro allI impI)
    fix k assume "k < length letters"
    have "\<forall>a \<in> {l. pos l = k} \<inter> set letters. \<forall>b \<in> {l. pos l = k} \<inter> set letters. a = b"
      using inj by (auto dest: inj_onD)
    then have "card ({l. pos l = k} \<inter> set letters) \<le> Suc 0"
      by (subst card_le_Suc0_iff_eq) auto
    then show "length (filter (\<lambda>l. valuation_of pos (AssignV l k)) letters) \<le> 1"
      using d by (simp add: distinct_length_filter)
  qed
  have c3: "list_all (sat (valuation_of pos)) (constraints3 letters)"
    unfolding sat_constraints3 by auto
  from c1 c2 c3 show ?thesis
    using b by (simp add: feasible_build)
qed

text \<open>
  C8: for the empty corpus every frequency is 0 (the extraction is a total function), every
  coefficient of the objective the function composes is 0, the objective is 0 at every
  valuation, so every feasible assignment is optimal, and in particular the assignment of
  every bijection of the letters onto the positions is optimal.
\<close>

theorem empty_corpus:
  fixes letters :: "'a list"
  assumes "build_model (freq_of []) penalty2 letters = Inr m"
  shows "(\<forall>s1 s2 :: 'a. freq_of [] s1 s2 = 0)
       \<and> (\<forall>(x, w) \<in> set (objective m). coef_value w = Some 0)
       \<and> (\<forall>v. objective_value m v = Some 0)
       \<and> (\<forall>v. feasible m v \<longrightarrow> optimal m v)
       \<and> (\<forall>pos. bij_betw pos (set letters) {..<length letters} \<longrightarrow> optimal m (valuation_of pos))"
proof -
  have f: "\<forall>s1 s2 :: 'a. freq_of [] s1 s2 = 0"
    by (simp add: freq_of_def)
  have t: "objective_terms (freq_of []) penalty2 letters = Inr (objective m)"
    using build_model_Inr [OF assms] by simp
  have z: "\<forall>(x, w) \<in> set (objective m). coef_value w = Some 0"
  proof (intro ballI, clarify)
    fix x w assume "(x, w) \<in> set (objective m)"
    from objective_terms_coef [OF t this]
    obtain l1 l2 :: 'a and p where "py_mul (freq_of [] l1 l2) p = Inr w" by blast
    with f have "py_mul 0 p = Inr w" by simp
    then show "coef_value w = Some 0" by (rule py_mul_zero)
  qed
  have fin: "finite_objective m"
    using z by (rule finite_objective_zero)
  have ws: "\<forall>v. weighted_sum (objective m) v = 0"
    using z by (simp add: weighted_sum_zero)
  have o: "\<forall>v. objective_value m v = Some 0"
    using fin ws by (simp add: objective_value_def)
  have opt: "\<forall>v. feasible m v \<longrightarrow> optimal m v"
    using fin ws by (simp add: optimal_def)
  have "\<forall>pos. bij_betw pos (set letters) {..<length letters} \<longrightarrow> optimal m (valuation_of pos)"
    using opt valuation_of_feasible [OF assms] by blast
  with f z o opt show ?thesis by blast
qed

text \<open>The constant \<open>tenth\<close> is a binary64 value, the one Python reads \<open>0.1\<close> as.\<close>

lemma tenth_binary64: "double_round (1 / 10) = tenth \<and> double_round tenth = tenth"
  by code_simp



lemma build_AB_empty: "build_model (freq_of '''') penalty_01 ''AB'' = Inr model_AB_empty"
  by (simp add: eval_build penalty_01_def model_AB_empty_def freq_of_def)

lemma bij_pos_AB: "bij_betw pos_AB (set ''AB'') {..<length ''AB''}"
  by (auto simp: bij_betw_def pos_AB_def inj_on_def)

theorem empty_corpus_witness:
  "build_model (freq_of '''') penalty_01 ''AB'' = Inr model_AB_empty
   \<and> bij_betw pos_AB (set ''AB'') {..<length ''AB''}
   \<and> objective_value model_AB_empty (valuation_of pos_AB) = Some 0
   \<and> optimal model_AB_empty (valuation_of pos_AB)"
proof -
  note t = empty_corpus [OF build_AB_empty]
  note t3 = t [THEN conjunct2, THEN conjunct2]
  have o: "objective_value model_AB_empty (valuation_of pos_AB) = Some 0"
    by (rule t3 [THEN conjunct1, THEN spec])
  have p: "optimal model_AB_empty (valuation_of pos_AB)"
    by (rule t3 [THEN conjunct2, THEN conjunct2, THEN spec, THEN mp, OF bij_pos_AB])
  show ?thesis
    by (intro conjI build_AB_empty bij_pos_AB o p)
qed


lemma weighted_sum_AB:
  "weighted_sum (objective model_AB) w = (if w (LinkV (CHR ''B'') (CHR ''A'') 0 1) then 1 else 0)"
  by (simp add: weighted_sum_def model_AB_def)

lemma finite_objective_AB: "finite_objective model_AB"
  by (simp add: finite_objective_def model_AB_def)

lemma optimal_AB: "optimal model_AB (valuation_of pos_AB)"
  unfolding optimal_def
  by (simp add: feasible_AB finite_objective_AB weighted_sum_AB pos_AB_def)

lemma concat_map_product:
  "concat (map (\<lambda>p. map (\<lambda>k. F p k) ks) ps) = map (\<lambda>(p, k). F p k) (List.product ps ks)"
  by (induction ps) auto

lemma sum_list_product:
  fixes f :: "'b \<times> 'c \<Rightarrow> rat"
  shows "sum_list (map f (List.product ps ks)) = sum_list (map (\<lambda>p. sum_list (map (\<lambda>k. f (p, k)) ks)) ps)"
  by (induction ps) (auto simp: comp_def)

lemma sequence_err_map_exact:
  "sequence_err (map G xs) = Inr ts \<Longrightarrow> (\<And>x y. x \<in> set xs \<Longrightarrow> G x = Inr y \<Longrightarrow> y = H x)
   \<Longrightarrow> ts = map H xs"
proof (induction xs arbitrary: ts)
  case Nil
  then show ?case by simp
next
  case (Cons a xs)
  from Cons.prems(1) obtain y ys where y: "G a = Inr y" "sequence_err (map G xs) = Inr ys" "ts = y # ys"
    by (auto split: sum.splits)
  have "ys = map H xs" using Cons.IH [OF y(2)] Cons.prems(2) by simp
  moreover have "y = H a" using Cons.prems(2) y(1) by simp
  ultimately show ?case using y(3) by simp
qed

lemma objective_term_Inr:
  "objective_term freq (int_matrix P) l1 l2 k1 k2 = Inr t \<Longrightarrow>
   t = (LinkV l1 l2 k1 k2, Num (PyInt (int (freq l1 l2) * P ! k1 ! k2)))"
  by (auto simp: objective_term_int_matrix split: if_splits)

lemma objective_terms_exact:
  assumes "objective_terms freq (int_matrix P) letters = Inr ts"
  shows "ts = map (\<lambda>((l1, l2), (k1, k2)).
                     (LinkV l1 l2 k1 k2, Num (PyInt (int (freq l1 l2) * P ! k1 ! k2))))
                  (List.product (permutations2 letters) (combinations2 (positions letters)))"
proof -
  have "sequence_err (map (\<lambda>((l1, l2), (k1, k2)). objective_term freq (int_matrix P) l1 l2 k1 k2)
           (List.product (permutations2 letters) (combinations2 (positions letters)))) = Inr ts"
    using assms
      concat_map_product [of "\<lambda>p k. objective_term freq (int_matrix P) (fst p) (snd p) (fst k) (snd k)"
        "combinations2 (positions letters)" "permutations2 letters"]
    unfolding objective_terms_def by (simp add: split_def)
  then show ?thesis
    by (rule sequence_err_map_exact) (auto dest: objective_term_Inr)
qed

lemma sum_list_map_concat:
  fixes f :: "'b \<Rightarrow> rat"
  shows "sum_list (map f (concat xss)) = sum_list (map (\<lambda>xs. sum_list (map f xs)) xss)"
  by (induction xss) auto

lemma sum_list_upt_single:
  fixes h :: "nat \<Rightarrow> rat"
  shows "sum_list (map (\<lambda>j. if j = b then h j else 0) [m..<n]) = (if m \<le> b \<and> b < n then h b else 0)"
  by (induction n) auto

lemma combinations2_upt:
  "combinations2 [0..<n] = concat (map (\<lambda>i. map (\<lambda>j. (i, j)) [Suc i..<n]) [0..<n])"
  unfolding combinations2_def
  by (rule arg_cong [where f = concat]) (auto intro!: map_cong)

lemma sum_list_combinations2_single:
  fixes g :: "nat \<Rightarrow> nat \<Rightarrow> rat"
  shows "sum_list (map (\<lambda>(k1, k2). if a = k1 \<and> b = k2 then g k1 k2 else 0) (combinations2 [0..<n]))
       = (if a < b \<and> b < n then g a b else 0)"
proof -
  have inner: "sum_list (map (\<lambda>j. if a = i \<and> b = j then g i j else 0) [Suc i..<n])
             = (if i = a then (if Suc a \<le> b \<and> b < n then g a b else 0) else 0)" for i
  proof (cases "i = a")
    case True
    have "sum_list (map (\<lambda>j. if a = i \<and> b = j then g i j else 0) [Suc i..<n])
        = sum_list (map (\<lambda>j. if j = b then g a j else 0) [Suc a..<n])"
      using True by (intro arg_cong [where f = sum_list] map_cong) auto
    then show ?thesis using True by (simp add: sum_list_upt_single)
  next
    case False
    then show ?thesis by simp
  qed
  have "sum_list (map (\<lambda>(k1, k2). if a = k1 \<and> b = k2 then g k1 k2 else 0) (combinations2 [0..<n]))
      = sum_list (map (\<lambda>i. sum_list (map (\<lambda>j. if a = i \<and> b = j then g i j else 0) [Suc i..<n])) [0..<n])"
    by (simp add: combinations2_upt sum_list_map_concat comp_def)
  also have "\<dots> = sum_list (map (\<lambda>i. if i = a then (if Suc a \<le> b \<and> b < n then g a b else 0) else 0) [0..<n])"
    by (simp add: inner)
  also have "\<dots> = (if a < n then (if Suc a \<le> b \<and> b < n then g a b else 0) else 0)"
    by (simp add: sum_list_upt_single)
  also have "\<dots> = (if a < b \<and> b < n then g a b else 0)"
    by auto
  finally show ?thesis .
qed

text \<open>
  What the composed objective is at the valuation of a layout, for an integer matrix: the
  pairs of letters whose first letter sits on the lower-numbered key, and no others.
\<close>

lemma objective_value_layout:
  assumes b: "build_model freq (int_matrix P) letters = Inr m"
    and r: "\<forall>s \<in> set letters. pos s < length letters"
    and cover: "\<forall>k1 k2. k1 < k2 \<and> k2 < length letters \<longrightarrow> k1 < length P \<and> k2 < length (P ! k1)"
  shows "objective_value m (valuation_of pos) = Some (ascending_cost freq (int_matrix P) letters pos)"
proof -
  let ?ks = "combinations2 (positions letters)"
  have t: "objective_terms freq (int_matrix P) letters = Inr (objective m)"
    using b by (auto simp: build_model_def split: sum.splits)
  have fin: "finite_objective m"
    using t by (rule finite_objective_int_matrix)
  have inner: "sum_list (map (\<lambda>(k1, k2).
            if pos l1 = k1 \<and> pos l2 = k2 then of_int (int (freq l1 l2) * P ! k1 ! k2) else 0) ?ks)
        = (if pos l1 < pos l2 \<and> pos l2 < length letters
           then of_int (int (freq l1 l2) * P ! pos l1 ! pos l2) else (0::rat))" for l1 l2
    unfolding positions_def
    by (rule sum_list_combinations2_single
          [where g = "\<lambda>k1 k2. of_int (int (freq l1 l2) * P ! k1 ! k2)"])
  have "weighted_sum (objective m) (valuation_of pos)
      = sum_list (map (\<lambda>((l1, l2), (k1, k2)).
            if pos l1 = k1 \<and> pos l2 = k2 then of_int (int (freq l1 l2) * P ! k1 ! k2) else 0)
          (List.product (permutations2 letters) ?ks))"
    unfolding weighted_sum_def objective_terms_exact [OF t]
    by (auto simp: comp_def split_def intro!: arg_cong [where f = sum_list] map_cong)
  also have "\<dots> = sum_list (map (\<lambda>(l1, l2). sum_list (map (\<lambda>(k1, k2).
            if pos l1 = k1 \<and> pos l2 = k2 then of_int (int (freq l1 l2) * P ! k1 ! k2) else 0) ?ks))
          (permutations2 letters))"
    by (simp add: sum_list_product split_def cong: if_cong)
  also have "\<dots> = sum_list (map (\<lambda>(l1, l2).
            if pos l1 < pos l2 \<and> pos l2 < length letters
            then of_int (int (freq l1 l2) * P ! pos l1 ! pos l2) else 0)
          (permutations2 letters))"
    by (simp only: inner)
  also have "\<dots> = ascending_cost freq (int_matrix P) letters pos"
    unfolding ascending_cost_def
  proof (intro arg_cong [where f = sum_list] map_cong refl)
    fix x assume x: "x \<in> set (permutations2 letters)"
    obtain l1 l2 where l: "x = (l1, l2)" by (cases x)
    with x have s: "l1 \<in> set letters" "l2 \<in> set letters"
      by (auto dest: permutations2_subset)
    show "(case x of (l1, l2) \<Rightarrow>
            if pos l1 < pos l2 \<and> pos l2 < length letters
            then of_int (int (freq l1 l2) * P ! pos l1 ! pos l2) else 0)
        = (case x of (s1, s2) \<Rightarrow>
            if pos s1 < pos s2
            then of_nat (freq s1 s2) * num_value (int_matrix P ! pos s1 ! pos s2) else 0)"
    proof (cases "pos l1 < pos l2")
      case True
      have "pos l2 < length letters" using r s by simp
      with True cover have "pos l1 < length P \<and> pos l2 < length (P ! pos l1)" by blast
      then show ?thesis using True \<open>pos l2 < length letters\<close> l
        by (simp add: int_matrix_def)
    next
      case False
      then show ?thesis using l by simp
    qed
  qed
  finally show ?thesis
    using fin by (simp add: objective_value_def)
qed

text \<open>
  C1 at a concrete input: letters \<open>AB\<close>, corpus \<open>BA\<close>, penalty 1 between the two
  keys in both directions.  The engine's optimal answer puts \<open>A\<close> on key 0 and \<open>B\<close>
  on key 1 with objective value 0, while typing \<open>BA\<close> on that layout goes from key 1 to
  key 0 and costs 1: the objective has terms for \<open>k1 < k2\<close> only and never reads
  \<open>penalty2[k1][k2]\<close> with \<open>k1 > k2\<close>.
\<close>

theorem objective_omits_descending_pairs:
  "build_model (freq_of ''BA'') penalty_01 ''AB'' = Inr model_AB
   \<and> optimal model_AB (valuation_of pos_AB)
   \<and> optimize_keymap (\<lambda>m. (OPTIMAL, valuation_of pos_AB)) penalty_01 ''AB'' ''BA''
       = Inr (Some [Some (CHR ''A''), Some (CHR ''B'')])
   \<and> objective_value model_AB (valuation_of pos_AB) = Some 0
   \<and> typing_cost (freq_of ''BA'') penalty_01 ''AB'' [Some (CHR ''A''), Some (CHR ''B'')] = 1"
proof -
  have o: "optimize_keymap (\<lambda>m. (OPTIMAL, valuation_of pos_AB)) penalty_01 ''AB'' ''BA''
       = Inr (Some [Some (CHR ''A''), Some (CHR ''B'')])"
    by (simp add: optimize_keymap_def build_AB decode_def decode_letter_def positions_def pos_AB_def)
  have v: "objective_value model_AB (valuation_of pos_AB) = Some 0"
    by (simp add: objective_value_def finite_objective_AB weighted_sum_AB pos_AB_def)
  have c: "typing_cost (freq_of ''BA'') penalty_01 ''AB'' [Some (CHR ''A''), Some (CHR ''B'')] = 1"
    by (simp add: typing_cost_def permutations2_def position_in_def penalty_01_def int_matrix_def
          freq_of_def)
  show ?thesis
    by (intro conjI build_AB optimal_AB o v c)
qed

theorem objective_omits_descending_pairs_witness:
  "objective_value model_AB (valuation_of pos_AB)
     \<noteq> Some (typing_cost (freq_of ''BA'') penalty_01 ''AB'' [Some (CHR ''A''), Some (CHR ''B'')])"
  using objective_omits_descending_pairs by simp

end
